theory Spec2Isabelle
  imports Main
begin

section \<open>JavaScript values and arrays used by the game\<close>

text \<open>
  The cells of the board are JavaScript values: \<open>null\<close> for an empty cell and the
  strings \<open>'X'\<close> and \<open>'O'\<close> for the marks. Reading an index that an array does not
  have gives \<open>undefined\<close>.
\<close>

datatype jsval = Undefined | Null | Str string

text \<open>
  An array is a list of slots; \<open>None\<close> is a hole of a sparse array (an index below the
  length that was never assigned), \<open>Some v\<close> a stored value.
\<close>

type_synonym jsarray = "jsval option list"

text \<open>Truthiness, as \<open>Boolean(v)\<close> and the operands of \<open>&&\<close>, \<open>||\<close> and \<open>if\<close> see it.\<close>

fun truthy :: "jsval \<Rightarrow> bool" where
  "truthy Undefined = False"
| "truthy Null = False"
| "truthy (Str s) = (s \<noteq> [])"

text \<open>String conversion of a template literal \<open>`${v}`\<close>.\<close>

fun toString :: "jsval \<Rightarrow> string" where
  "toString Undefined = ''undefined''"
| "toString Null = ''null''"
| "toString (Str s) = s"

text \<open>\<open>xs[i]\<close> as an expression: a hole or an index past the end reads as \<open>undefined\<close>.\<close>

definition js_get :: "jsarray \<Rightarrow> nat \<Rightarrow> jsval" where
  "js_get xs i =
     (if i < length xs then (case xs ! i of None \<Rightarrow> Undefined | Some v \<Rightarrow> v)
      else Undefined)"

text \<open>
  \<open>xs[i] = v\<close> as a statement: an index past the end extends the array, leaving holes
  between the old end and the new element.
\<close>

definition js_set :: "jsarray \<Rightarrow> nat \<Rightarrow> jsval \<Rightarrow> jsarray" where
  "js_set xs i v =
     (if i < length xs then xs[i := Some v]
      else xs @ replicate (i - length xs) None @ [Some v])"

text \<open>\<open>Array(n).fill(v)\<close>.\<close>

definition Array_fill :: "nat \<Rightarrow> jsval \<Rightarrow> jsarray" where
  "Array_fill n v = replicate n (Some v)"

text \<open>\<open>xs.every(Boolean)\<close>: \<open>every\<close> does not visit holes.\<close>

definition every_Boolean :: "jsarray \<Rightarrow> bool" where
  "every_Boolean xs = list_all (\<lambda>slot. case slot of None \<Rightarrow> True | Some v \<Rightarrow> truthy v) xs"

section \<open>The win evaluator \<open>calculateWinner\<close>\<close>

record win_result =
  winner :: jsval
  line :: "nat list"

definition lines :: "(nat \<times> nat \<times> nat) list" where
  "lines =
     [(0, 1, 2), (3, 4, 5), (6, 7, 8),
      (0, 3, 6), (1, 4, 7), (2, 5, 8),
      (0, 4, 8), (2, 4, 6)]"

text \<open>The test of the \<open>if\<close> in the loop body, for one triple.\<close>

definition line_matches :: "jsarray \<Rightarrow> nat \<times> nat \<times> nat \<Rightarrow> bool" where
  "line_matches squares t =
     (case t of (a, b, c) \<Rightarrow>
        truthy (js_get squares a) \<and>
        js_get squares a = js_get squares b \<and>
        js_get squares a = js_get squares c)"

text \<open>The \<open>for (const [a, b, c] of lines)\<close> loop, returning at the first match.\<close>

fun scan_lines :: "jsarray \<Rightarrow> (nat \<times> nat \<times> nat) list \<Rightarrow> win_result option" where
  "scan_lines squares [] = None"
| "scan_lines squares ((a, b, c) # rest) =
     (if line_matches squares (a, b, c)
      then Some \<lparr>winner = js_get squares a, line = [a, b, c]\<rparr>
      else scan_lines squares rest)"

definition calculateWinner :: "jsarray \<Rightarrow> win_result option" where
  "calculateWinner squares = scan_lines squares lines"

section \<open>The game controller \<open>App\<close>\<close>

record game =
  squares :: jsarray
  isXNext :: bool
  gameOver :: bool
  history :: "jsarray list"

text \<open>The initial values of the four \<open>useState\<close> hooks.\<close>

definition initial :: game where
  "initial = \<lparr>squares = Array_fill 9 Null, isXNext = True, gameOver = False, history = []\<rparr>"

text \<open>The values computed from the state at every render.\<close>

definition winResult :: "game \<Rightarrow> win_result option" where
  "winResult s = calculateWinner (squares s)"

definition isBoardFull :: "game \<Rightarrow> bool" where
  "isBoardFull s = every_Boolean (squares s)"

definition status :: "game \<Rightarrow> string" where
  "status s =
     (case winResult s of
        Some r \<Rightarrow> ''Winner: '' @ toString (winner r)
      | None \<Rightarrow>
          if isBoardFull s then ''Draw!''
          else ''Next turn: '' @ (if isXNext s then ''X'' else ''O''))"

text \<open>The \<open>winningLine\<close> property handed to the board.\<close>

definition winningLine :: "game \<Rightarrow> nat list option" where
  "winningLine s = (case winResult s of Some r \<Rightarrow> Some (line r) | None \<Rightarrow> None)"

text \<open>The effect that runs after a render: it stores the derived game-over flag.\<close>

definition gameOverEffect :: "game \<Rightarrow> game" where
  "gameOverEffect s = s\<lparr>gameOver := (winResult s \<noteq> None \<or> isBoardFull s)\<rparr>"

text \<open>
  The click handler either returns at its guard without calling a state setter, or
  hands the three updated state values to the next render.
\<close>

datatype click_outcome = Ignored | Accepted game

definition handleSquareClick :: "nat \<Rightarrow> game \<Rightarrow> click_outcome" where
  "handleSquareClick idx s =
     (if truthy (js_get (squares s) idx) \<or> gameOver s then Ignored
      else
        let nextSquares = js_set (squares s) idx (Str (if isXNext s then ''X'' else ''O''))
        in Accepted (s\<lparr>squares := nextSquares,
                       isXNext := \<not> isXNext s,
                       history := history s @ [nextSquares]\<rparr>))"

definition handleRestart :: "game \<Rightarrow> game" where
  "handleRestart s =
     s\<lparr>squares := Array_fill 9 Null, isXNext := True, gameOver := False, history := []\<rparr>"

text \<open>
  One user action with the render and effect that follow it. An ignored click sets no
  state, so nothing is rendered and the state stays as it is.
\<close>

definition applyMove :: "nat \<Rightarrow> game \<Rightarrow> game" where
  "applyMove idx s =
     (case handleSquareClick idx s of Ignored \<Rightarrow> s | Accepted s' \<Rightarrow> gameOverEffect s')"

definition reset :: "game \<Rightarrow> game" where
  "reset s = gameOverEffect (handleRestart s)"

text \<open>A sequence of clicks, in order.\<close>

fun applyMoves :: "nat list \<Rightarrow> game \<Rightarrow> game" where
  "applyMoves [] s = s"
| "applyMoves (idx # rest) s = applyMoves rest (applyMove idx s)"

text \<open>Whether every click of a sequence passes the guard of the handler.\<close>

fun moves_accepted :: "nat list \<Rightarrow> game \<Rightarrow> bool" where
  "moves_accepted [] s = True"
| "moves_accepted (idx # rest) s =
     (handleSquareClick idx s \<noteq> Ignored \<and> moves_accepted rest (applyMove idx s))"

text \<open>The states the application can be in: the first render, then clicks and restarts.\<close>

inductive reachable :: "game \<Rightarrow> bool" where
  reachable_initial: "reachable initial"
| reachable_applyMove: "reachable s \<Longrightarrow> reachable (applyMove idx s)"
| reachable_reset: "reachable s \<Longrightarrow> reachable (reset s)"

text \<open>How often a mark occurs on a board.\<close>

definition count_mark :: "string \<Rightarrow> jsarray \<Rightarrow> nat" where
  "count_mark m board = count_list board (Some (Str m))"

text \<open>
  The shape of the board state: nine elements, none of them a hole, as
  \<open>Array(9).fill(null)\<close> creates it and in-range assignments keep it.
\<close>

definition is_board :: "jsarray \<Rightarrow> bool" where
  "is_board board = (length board = 9 \<and> list_all (\<lambda>slot. slot \<noteq> None) board)"

text \<open>A slot that holds a mark, and how many slots of a board do.\<close>

definition filled :: "jsval option \<Rightarrow> bool" where
  "filled slot = (case slot of None \<Rightarrow> False | Some v \<Rightarrow> truthy v)"

definition count_filled :: "jsarray \<Rightarrow> nat" where
  "count_filled board = length (filter filled board)"

section \<open>The game result as the specification words it\<close>

text \<open>
  The specification describes a derived value \<open>InProgress | Win(player, line) | Draw\<close>
  and a derived game-over condition. The two definitions below follow its wording; they
  are compared with \<open>status\<close>, \<open>winningLine\<close> and \<open>gameOverEffect\<close> of the code.
\<close>

datatype GameResult = InProgress | Win jsval "nat list" | Draw

definition all_cells_filled :: "jsarray \<Rightarrow> bool" where
  "all_cells_filled board = list_all (\<lambda>i. truthy (js_get board i)) [0..<9]"

definition spec_gameOver :: "jsarray \<Rightarrow> bool" where
  "spec_gameOver board = (calculateWinner board \<noteq> None \<or> all_cells_filled board)"

definition spec_GameResult :: "jsarray \<Rightarrow> GameResult" where
  "spec_GameResult board =
     (case calculateWinner board of
        Some r \<Rightarrow> Win (winner r) (line r)
      | None \<Rightarrow> if all_cells_filled board then Draw else InProgress)"

section \<open>Basic facts about the model\<close>

subsection \<open>The empty board\<close>

lemma Array_fill_9: "Array_fill 9 v = [Some v, Some v, Some v, Some v, Some v, Some v, Some v, Some v, Some v]"
  by (simp add: Array_fill_def numeral_eq_Suc)

lemma calculateWinner_empty: "calculateWinner (Array_fill 9 Null) = None"
  by (simp add: calculateWinner_def lines_def line_matches_def js_get_def Array_fill_9)

lemma every_Boolean_empty: "\<not> every_Boolean (Array_fill 9 Null)"
  by (simp add: every_Boolean_def Array_fill_9)

subsection \<open>Array reads and writes\<close>

lemma js_get_missing: "length xs \<le> i \<Longrightarrow> js_get xs i = Undefined"
  by (simp add: js_get_def)

lemma js_get_Str: "js_get xs i = Str m \<longleftrightarrow> i < length xs \<and> xs ! i = Some (Str m)"
  by (auto simp: js_get_def split: option.splits)

lemma js_set_in_range: "i < length xs \<Longrightarrow> js_set xs i v = xs[i := Some v]"
  by (simp add: js_set_def)

lemma length_js_set: "i < length xs \<Longrightarrow> length (js_set xs i v) = length xs"
  by (simp add: js_set_def)

lemma js_get_js_set: "js_get (js_set xs i v) j = (if j = i then v else js_get xs j)"
proof (cases "i < length xs")
  case True
  then show ?thesis
    by (auto simp: js_get_def js_set_def)
next
  case False
  then show ?thesis
    by (auto simp: js_get_def js_set_def nth_append)
qed

subsection \<open>The scan over the lines\<close>

lemma truthy_Str: "truthy v \<longleftrightarrow> (\<exists>m. m \<noteq> [] \<and> v = Str m)"
  by (cases v) auto

lemma line_matches_iff:
  "line_matches board (a, b, c) \<longleftrightarrow>
     (\<exists>m. m \<noteq> [] \<and> js_get board a = Str m \<and> js_get board b = Str m \<and> js_get board c = Str m)"
  by (auto simp: line_matches_def truthy_Str)

lemma scan_lines_None: "scan_lines board ls = None \<longleftrightarrow> (\<forall>t \<in> set ls. \<not> line_matches board t)"
  by (induction board ls rule: scan_lines.induct) auto

lemma scan_lines_Some:
  "scan_lines board ls = Some r \<Longrightarrow>
     \<exists>k < length ls. line_matches board (ls ! k)
        \<and> (\<forall>j < k. \<not> line_matches board (ls ! j))
        \<and> r = \<lparr>winner = js_get board (fst (ls ! k)),
                 line = [fst (ls ! k), fst (snd (ls ! k)), snd (snd (ls ! k))]\<rparr>"
proof (induction board ls rule: scan_lines.induct)
  case (1 squares)
  then show ?case by simp
next
  case (2 squares a b c rest)
  show ?case
  proof (cases "line_matches squares (a, b, c)")
    case True
    with "2.prems" have "r = \<lparr>winner = js_get squares a, line = [a, b, c]\<rparr>"
      by simp
    with True show ?thesis
      by (intro exI [of _ 0]) simp
  next
    case False
    with "2.prems" have "scan_lines squares rest = Some r"
      by simp
    from "2.IH" [OF False this] obtain k where k1: "k < length rest"
      and k2: "line_matches squares (rest ! k)"
      and k3: "\<forall>j < k. \<not> line_matches squares (rest ! j)"
      and k4: "r = \<lparr>winner = js_get squares (fst (rest ! k)),
                 line = [fst (rest ! k), fst (snd (rest ! k)), snd (snd (rest ! k))]\<rparr>"
      by (elim exE conjE)
    have "\<not> line_matches squares (((a, b, c) # rest) ! j)" if "j < Suc k" for j
      using that False k3 by (cases j) simp_all
    with k1 k2 k4 show ?thesis
      by (intro exI [of _ "Suc k"]) simp
  qed
qed

subsection \<open>The two branches of a click\<close>

lemma applyMove_ignored:
  "truthy (js_get (squares s) idx) \<or> gameOver s \<Longrightarrow> applyMove idx s = s"
  by (auto simp: applyMove_def handleSquareClick_def)

lemma applyMove_accepted:
  "\<not> truthy (js_get (squares s) idx) \<Longrightarrow> \<not> gameOver s \<Longrightarrow>
   applyMove idx s =
     gameOverEffect (s\<lparr>squares := js_set (squares s) idx (Str (if isXNext s then ''X'' else ''O'')),
        isXNext := \<not> isXNext s,
        history := history s @ [js_set (squares s) idx (Str (if isXNext s then ''X'' else ''O''))]\<rparr>)"
  by (simp add: applyMove_def handleSquareClick_def Let_def)

lemma squares_gameOverEffect [simp]: "squares (gameOverEffect s) = squares s"
  and isXNext_gameOverEffect [simp]: "isXNext (gameOverEffect s) = isXNext s"
  and history_gameOverEffect [simp]: "history (gameOverEffect s) = history s"
  and gameOver_gameOverEffect: "gameOver (gameOverEffect s) = (winResult s \<noteq> None \<or> isBoardFull s)"
  by (simp_all add: gameOverEffect_def)

lemma derived_gameOverEffect [simp]:
  "winResult (gameOverEffect s) = winResult s" "isBoardFull (gameOverEffect s) = isBoardFull s"
  by (simp_all add: winResult_def isBoardFull_def)

lemma reset_eq_initial: "reset s = initial"
  by (simp add: reset_def handleRestart_def gameOverEffect_def winResult_def isBoardFull_def
        initial_def calculateWinner_empty every_Boolean_empty)

lemma reachable_gameOver:
  "reachable s \<Longrightarrow> gameOver s = (winResult s \<noteq> None \<or> isBoardFull s)"
proof (induction rule: reachable.induct)
  case reachable_initial
  show ?case
    by (simp add: initial_def winResult_def isBoardFull_def calculateWinner_empty every_Boolean_empty)
next
  case (reachable_applyMove s idx)
  show ?case
  proof (cases "truthy (js_get (squares s) idx) \<or> gameOver s")
    case True
    then show ?thesis using reachable_applyMove.IH by (simp add: applyMove_ignored)
  next
    case False
    then show ?thesis
      by (simp add: applyMove_accepted gameOver_gameOverEffect)
  qed
next
  case (reachable_reset s)
  show ?case
    by (simp add: reset_eq_initial initial_def winResult_def isBoardFull_def calculateWinner_empty every_Boolean_empty)
qed

text \<open>The equations that evaluate a run of the game on a concrete board.\<close>

lemmas run_defs = applyMove_def handleSquareClick_def gameOverEffect_def winResult_def
  calculateWinner_def lines_def line_matches_def js_get_def js_set_def isBoardFull_def
  every_Boolean_def initial_def Array_fill_9 Let_def

lemma calculateWinner_None: "calculateWinner board = None \<longleftrightarrow> (\<forall>t \<in> set lines. \<not> line_matches board t)"
  by (simp add: calculateWinner_def scan_lines_None)

lemma length_lines: "length lines = 8"
  by (simp add: lines_def)

lemma calculateWinner_Some:
  assumes "calculateWinner board = Some r"
  shows "\<exists>k < 8. \<exists>a b c m. lines ! k = (a, b, c) \<and> r = \<lparr>winner = Str m, line = [a, b, c]\<rparr>
           \<and> m \<noteq> [] \<and> js_get board a = Str m \<and> js_get board b = Str m \<and> js_get board c = Str m
           \<and> (\<forall>j < k. \<not> line_matches board (lines ! j))"
proof -
  from assms obtain k where k: "k < length lines" "line_matches board (lines ! k)"
      "\<forall>j < k. \<not> line_matches board (lines ! j)"
      "r = \<lparr>winner = js_get board (fst (lines ! k)),
             line = [fst (lines ! k), fst (snd (lines ! k)), snd (snd (lines ! k))]\<rparr>"
    unfolding calculateWinner_def by (blast dest: scan_lines_Some)
  obtain a b c where t: "lines ! k = (a, b, c)"
    by (cases "lines ! k") auto
  from k(2) t obtain m where m: "m \<noteq> []" "js_get board a = Str m" "js_get board b = Str m"
      "js_get board c = Str m"
    by (auto simp: line_matches_iff)
  from k(4) t m have "r = \<lparr>winner = Str m, line = [a, b, c]\<rparr>"
    by simp
  with k(1,3) t m show ?thesis
    unfolding length_lines by blast
qed

lemma nth_lines_cases:
  "k < 8 \<Longrightarrow> lines ! k \<in> {(0, 1, 2), (3, 4, 5), (6, 7, 8), (0, 3, 6), (1, 4, 7), (2, 5, 8), (0, 4, 8), (2, 4, 6)}"
proof -
  assume "k < 8"
  then have "lines ! k \<in> set lines"
    by (simp add: length_lines)
  then show ?thesis
    by (simp add: lines_def)
qed

lemma calculateWinner_line:
  assumes "calculateWinner board = Some r"
  shows "line r \<in> {[0, 1, 2], [3, 4, 5], [6, 7, 8], [0, 3, 6], [1, 4, 7], [2, 5, 8], [0, 4, 8], [2, 4, 6]}"
proof -
  from calculateWinner_Some [OF assms] obtain k a b c where "k < 8" "lines ! k = (a, b, c)"
    "line r = [a, b, c]"
    by auto
  with nth_lines_cases [of k] show ?thesis
    by auto
qed

section \<open>The win evaluator returns the first matching line\<close>

text \<open>
  C1. \<open>calculateWinner\<close> checks exactly the eight fixed triples (three rows, three
  columns, two diagonals), in that order. A triple matches when its three cells hold the
  same non-empty mark. The result is none exactly when no triple matches; otherwise it is
  the mark and the indices of the first triple that matches, so the returned line is
  always one of the eight. This holds for every array, in particular every 9-cell board.
\<close>

theorem calculateWinner_first_match:
  "lines = [(0, 1, 2), (3, 4, 5), (6, 7, 8), (0, 3, 6), (1, 4, 7), (2, 5, 8), (0, 4, 8), (2, 4, 6)]
   \<and> (\<forall>a b c. line_matches board (a, b, c) \<longleftrightarrow>
         (\<exists>m. m \<noteq> [] \<and> js_get board a = Str m \<and> js_get board b = Str m \<and> js_get board c = Str m))
   \<and> (calculateWinner board = None \<longleftrightarrow> (\<forall>t \<in> set lines. \<not> line_matches board t))
   \<and> (\<forall>r. calculateWinner board = Some r \<longrightarrow>
         (\<exists>k < 8. \<exists>a b c m. lines ! k = (a, b, c) \<and> r = \<lparr>winner = Str m, line = [a, b, c]\<rparr>
            \<and> m \<noteq> [] \<and> js_get board a = Str m \<and> js_get board b = Str m \<and> js_get board c = Str m
            \<and> (\<forall>j < k. \<not> line_matches board (lines ! j)))
         \<and> line r \<in> {[0, 1, 2], [3, 4, 5], [6, 7, 8], [0, 3, 6], [1, 4, 7], [2, 5, 8], [0, 4, 8], [2, 4, 6]})"
proof (intro conjI allI impI)
  show "lines = [(0, 1, 2), (3, 4, 5), (6, 7, 8), (0, 3, 6), (1, 4, 7), (2, 5, 8), (0, 4, 8), (2, 4, 6)]"
    by (simp add: lines_def)
next
  fix a b c
  show "line_matches board (a, b, c) \<longleftrightarrow>
         (\<exists>m. m \<noteq> [] \<and> js_get board a = Str m \<and> js_get board b = Str m \<and> js_get board c = Str m)"
    by (rule line_matches_iff)
next
  show "calculateWinner board = None \<longleftrightarrow> (\<forall>t \<in> set lines. \<not> line_matches board t)"
    by (rule calculateWinner_None)
next
  fix r assume "calculateWinner board = Some r"
  then show "\<exists>k < 8. \<exists>a b c m. lines ! k = (a, b, c) \<and> r = \<lparr>winner = Str m, line = [a, b, c]\<rparr>
            \<and> m \<noteq> [] \<and> js_get board a = Str m \<and> js_get board b = Str m \<and> js_get board c = Str m
            \<and> (\<forall>j < k. \<not> line_matches board (lines ! j))"
    by (rule calculateWinner_Some)
next
  fix r assume "calculateWinner board = Some r"
  then show "line r \<in> {[0, 1, 2], [3, 4, 5], [6, 7, 8], [0, 3, 6], [1, 4, 7], [2, 5, 8], [0, 4, 8], [2, 4, 6]}"
    by (rule calculateWinner_line)
qed

theorem calculateWinner_first_match_witness:
  "calculateWinner
     [Some (Str ''O''), Some (Str ''X''), Some (Str ''O''),
      Some (Str ''X''), Some (Str ''X''), Some (Str ''O''),
      Some Null, Some (Str ''X''), Some (Str ''O'')]
   = Some \<lparr>winner = Str ''X'', line = [1, 4, 7]\<rparr>
   \<and> [1, 4, 7] \<in> {[0, 1, 2], [3, 4, 5], [6, 7, 8], [0, 3, 6], [1, 4, 7], [2, 5, 8], [0, 4, 8], [2, 4, 6 :: nat]}
   \<and> (\<exists>t \<in> set lines. line_matches
     [Some (Str ''O''), Some (Str ''X''), Some (Str ''O''),
      Some (Str ''X''), Some (Str ''X''), Some (Str ''O''),
      Some Null, Some (Str ''X''), Some (Str ''O'')] t)"
proof -
  let ?b = "[Some (Str ''O''), Some (Str ''X''), Some (Str ''O''),
      Some (Str ''X''), Some (Str ''X''), Some (Str ''O''),
      Some Null, Some (Str ''X''), Some (Str ''O'')]"
  have w: "calculateWinner ?b = Some \<lparr>winner = Str ''X'', line = [1, 4, 7]\<rparr>"
    by (simp add: calculateWinner_def lines_def line_matches_def js_get_def)
  note inst = calculateWinner_first_match [of ?b]
  from inst w have "line \<lparr>winner = Str ''X'', line = [1, 4, 7]\<rparr>
      \<in> {[0, 1, 2], [3, 4, 5], [6, 7, 8], [0, 3, 6], [1, 4, 7], [2, 5, 8], [0, 4, 8], [2, 4, 6]}"
    by blast
  moreover from inst w have "\<not> (\<forall>t \<in> set lines. \<not> line_matches ?b t)"
    by simp
  ultimately show ?thesis
    using w by simp
qed

section \<open>Clicks\<close>

lemma handleSquareClick_Ignored:
  "handleSquareClick idx s = Ignored \<longleftrightarrow> truthy (js_get (squares s) idx) \<or> gameOver s"
  by (simp add: handleSquareClick_def Let_def)

text \<open>
  C2. A click on an occupied cell, or a click when the game is decided, is ignored: the
  handler returns at its guard, and the board, the turn flag and the game-over flag (the
  whole state) stay as they are. Nothing is reported; the click has no other outcome.
  The game is decided when the game-over flag is set, which in every reachable state is
  the same as the board having a winner or being full.
\<close>

theorem applyMove_noop:
  assumes "truthy (js_get (squares s) idx) \<or> gameOver s
           \<or> (reachable s \<and> (winResult s \<noteq> None \<or> isBoardFull s))"
  shows "handleSquareClick idx s = Ignored \<and> applyMove idx s = s
         \<and> squares (applyMove idx s) = squares s
         \<and> isXNext (applyMove idx s) = isXNext s
         \<and> gameOver (applyMove idx s) = gameOver s"
proof -
  from assms have g: "truthy (js_get (squares s) idx) \<or> gameOver s"
    by (auto simp: reachable_gameOver)
  then have "handleSquareClick idx s = Ignored"
    by (simp add: handleSquareClick_Ignored)
  moreover from g have "applyMove idx s = s"
    by (rule applyMove_ignored)
  ultimately show ?thesis
    by simp
qed

theorem applyMove_noop_witness:
  "truthy (js_get (squares (applyMove 4 initial)) 4)
   \<and> handleSquareClick 4 (applyMove 4 initial) = Ignored
   \<and> applyMove 4 (applyMove 4 initial) = applyMove 4 initial"
proof -
  have h: "truthy (js_get (squares (applyMove 4 initial)) 4)"
    by (simp add: run_defs)
  from applyMove_noop [of "applyMove 4 initial" 4] h show ?thesis
    by simp
qed

text \<open>
  C3. When the clicked cell is empty and the game is not decided, the click is accepted:
  that cell receives the mark of the current turn (\<open>'X'\<close> when X is next, \<open>'O'\<close>
  otherwise), every other cell reads as before, and the turn flag flips. For an index on
  the board the new board is the old one updated at that index, with the same length.
\<close>

theorem applyMove_places_mark:
  assumes "\<not> truthy (js_get (squares s) idx)" and "\<not> gameOver s"
  shows "handleSquareClick idx s \<noteq> Ignored
         \<and> js_get (squares (applyMove idx s)) idx = Str (if isXNext s then ''X'' else ''O'')
         \<and> (\<forall>j. j \<noteq> idx \<longrightarrow> js_get (squares (applyMove idx s)) j = js_get (squares s) j)
         \<and> isXNext (applyMove idx s) = (\<not> isXNext s)
         \<and> (idx < length (squares s) \<longrightarrow>
               squares (applyMove idx s) = (squares s)[idx := Some (Str (if isXNext s then ''X'' else ''O''))]
               \<and> length (squares (applyMove idx s)) = length (squares s))"
proof -
  let ?m = "Str (if isXNext s then ''X'' else ''O'')"
  have sq: "squares (applyMove idx s) = js_set (squares s) idx ?m"
    and nx: "isXNext (applyMove idx s) = (\<not> isXNext s)"
    using assms by (simp_all add: applyMove_accepted)
  have "handleSquareClick idx s \<noteq> Ignored"
    using assms by (simp add: handleSquareClick_Ignored)
  moreover have "js_get (squares (applyMove idx s)) idx = ?m"
    by (simp add: sq js_get_js_set)
  moreover have "\<forall>j. j \<noteq> idx \<longrightarrow> js_get (squares (applyMove idx s)) j = js_get (squares s) j"
    by (simp add: sq js_get_js_set)
  moreover have "idx < length (squares s) \<longrightarrow>
               squares (applyMove idx s) = (squares s)[idx := Some ?m]
               \<and> length (squares (applyMove idx s)) = length (squares s)"
    by (simp add: sq js_set_in_range)
  ultimately show ?thesis
    using nx by blast
qed

theorem applyMove_places_mark_witness:
  "\<not> truthy (js_get (squares (applyMove 0 initial)) 4) \<and> \<not> gameOver (applyMove 0 initial)
   \<and> isXNext (applyMove 0 initial) = False
   \<and> js_get (squares (applyMove 4 (applyMove 0 initial))) 4 = Str ''O''
   \<and> js_get (squares (applyMove 4 (applyMove 0 initial))) 0 = Str ''X''
   \<and> isXNext (applyMove 4 (applyMove 0 initial))"
proof -
  have h1: "\<not> truthy (js_get (squares (applyMove 0 initial)) 4)"
    and h2: "\<not> gameOver (applyMove 0 initial)"
    and h3: "isXNext (applyMove 0 initial) = False"
    and h4: "js_get (squares (applyMove 0 initial)) 0 = Str ''X''"
    by (simp_all add: run_defs)
  from applyMove_places_mark [OF h1 h2] h1 h2 h3 h4 show ?thesis
    by simp
qed

section \<open>The example game\<close>

text \<open>
  C9. From the initial state the clicks 0, 4, 1, 3, 2 place X, O, X, O, X. The result is a
  win of X on the line [0, 1, 2], not on [0, 4, 8].
\<close>

theorem example_game_wins_top_row:
  "squares (applyMoves [0, 4, 1, 3, 2] initial) =
     [Some (Str ''X''), Some (Str ''X''), Some (Str ''X''),
      Some (Str ''O''), Some (Str ''O''), Some Null,
      Some Null, Some Null, Some Null]
   \<and> winResult (applyMoves [0, 4, 1, 3, 2] initial) = Some \<lparr>winner = Str ''X'', line = [0, 1, 2]\<rparr>
   \<and> winningLine (applyMoves [0, 4, 1, 3, 2] initial) = Some [0, 1, 2]
   \<and> winningLine (applyMoves [0, 4, 1, 3, 2] initial) \<noteq> Some [0, 4, 8]
   \<and> status (applyMoves [0, 4, 1, 3, 2] initial) = ''Winner: X''
   \<and> gameOver (applyMoves [0, 4, 1, 3, 2] initial)
   \<and> spec_GameResult (squares (applyMoves [0, 4, 1, 3, 2] initial)) = Win (Str ''X'') [0, 1, 2]"
proof -
  define s where "s = applyMoves [0, 4, 1, 3, 2] initial"
  have sq: "squares s =
     [Some (Str ''X''), Some (Str ''X''), Some (Str ''X''),
      Some (Str ''O''), Some (Str ''O''), Some Null,
      Some Null, Some Null, Some Null]"
    unfolding s_def by (simp add: run_defs)
  have go: "gameOver s"
    unfolding s_def by (simp add: run_defs)
  have w: "calculateWinner [Some (Str ''X''), Some (Str ''X''), Some (Str ''X''),
      Some (Str ''O''), Some (Str ''O''), Some Null,
      Some Null, Some Null, Some Null] = Some \<lparr>winner = Str ''X'', line = [0, 1, 2]\<rparr>"
    by (simp add: calculateWinner_def lines_def line_matches_def js_get_def)
  have "squares s =
     [Some (Str ''X''), Some (Str ''X''), Some (Str ''X''),
      Some (Str ''O''), Some (Str ''O''), Some Null,
      Some Null, Some Null, Some Null]
   \<and> winResult s = Some \<lparr>winner = Str ''X'', line = [0, 1, 2]\<rparr>
   \<and> winningLine s = Some [0, 1, 2]
   \<and> winningLine s \<noteq> Some [0, 4, 8]
   \<and> status s = ''Winner: X''
   \<and> gameOver s
   \<and> spec_GameResult (squares s) = Win (Str ''X'') [0, 1, 2]"
    using sq go by (simp add: w winResult_def winningLine_def status_def spec_GameResult_def)
  then show ?thesis
    unfolding s_def .
qed

section \<open>The win evaluator is total\<close>

text \<open>
  C8. \<open>calculateWinner\<close> is a function of the board alone and returns a value for every
  array, whatever its length and content: either none, or a line whose three cells all
  exist and hold the same non-empty mark. A triple with an empty or missing cell (an
  index past the end, a hole, \<open>null\<close>) never matches, and the guard on the first cell
  rejects every falsy first cell. Equal boards give equal results.
\<close>

theorem calculateWinner_total:
  "(calculateWinner board = None
      \<or> (\<exists>a b c m. calculateWinner board = Some \<lparr>winner = Str m, line = [a, b, c]\<rparr>
            \<and> m \<noteq> [] \<and> a < length board \<and> b < length board \<and> c < length board
            \<and> board ! a = Some (Str m) \<and> board ! b = Some (Str m) \<and> board ! c = Some (Str m)))
   \<and> (\<forall>a b c. \<not> truthy (js_get board a) \<longrightarrow> \<not> line_matches board (a, b, c))
   \<and> (\<forall>a b c. length board \<le> a \<or> length board \<le> b \<or> length board \<le> c
         \<or> board ! a = None \<or> board ! b = None \<or> board ! c = None
         \<or> board ! a = Some Null \<or> board ! b = Some Null \<or> board ! c = Some Null
         \<longrightarrow> \<not> line_matches board (a, b, c))
   \<and> (\<forall>board'. board' = board \<longrightarrow> calculateWinner board' = calculateWinner board)"
proof (intro conjI allI impI)
  show "calculateWinner board = None
      \<or> (\<exists>a b c m. calculateWinner board = Some \<lparr>winner = Str m, line = [a, b, c]\<rparr>
            \<and> m \<noteq> [] \<and> a < length board \<and> b < length board \<and> c < length board
            \<and> board ! a = Some (Str m) \<and> board ! b = Some (Str m) \<and> board ! c = Some (Str m))"
  proof (cases "calculateWinner board")
    case None
    then show ?thesis by simp
  next
    case (Some r)
    from calculateWinner_Some [OF this] obtain a b c m where
      "r = \<lparr>winner = Str m, line = [a, b, c]\<rparr>" "m \<noteq> []"
      "js_get board a = Str m" "js_get board b = Str m" "js_get board c = Str m"
      by blast
    with Some show ?thesis
      by (auto simp: js_get_Str)
  qed
next
  fix a b c
  assume "\<not> truthy (js_get board a)"
  then show "\<not> line_matches board (a, b, c)"
    by (simp add: line_matches_def)
next
  fix a b c
  assume "length board \<le> a \<or> length board \<le> b \<or> length board \<le> c
         \<or> board ! a = None \<or> board ! b = None \<or> board ! c = None
         \<or> board ! a = Some Null \<or> board ! b = Some Null \<or> board ! c = Some Null"
  then show "\<not> line_matches board (a, b, c)"
    by (auto simp: line_matches_iff js_get_Str)
next
  fix board'
  assume "board' = board"
  then show "calculateWinner board' = calculateWinner board"
    by simp
qed

theorem calculateWinner_total_witness:
  "calculateWinner [Some (Str ''X''), Some (Str ''X'')] = None
   \<and> \<not> line_matches [Some (Str ''X''), Some (Str ''X'')] (0, 1, 2)
   \<and> \<not> line_matches [Some (Str ''X''), Some (Str ''X'')] (2, 1, 0)"
proof -
  let ?b = "[Some (Str ''X''), Some (Str ''X'')]"
  note inst = calculateWinner_total [of ?b]
  have "length ?b \<le> 2" and "\<not> truthy (js_get ?b 2)"
    by (simp_all add: js_get_def)
  with inst have "\<not> line_matches ?b (0, 1, 2)" and "\<not> line_matches ?b (2, 1, 0)"
    by blast+
  moreover have "calculateWinner ?b = None"
    by (simp add: calculateWinner_def lines_def line_matches_def js_get_def)
  ultimately show ?thesis
    by simp
qed

section \<open>Reset\<close>

text \<open>
  C6. From every game state, reset produces the initial state: all nine cells empty,
  X to move, the game-over flag cleared (and the history emptied).
\<close>

theorem reset_initial:
  "reset s = initial
   \<and> squares (reset s) = replicate 9 (Some Null)
   \<and> isXNext (reset s)
   \<and> \<not> gameOver (reset s)"
proof -
  have "reset s = initial"
    by (rule reset_eq_initial)
  then show ?thesis
    by (simp add: initial_def Array_fill_def)
qed

section \<open>Marks stay where they are placed\<close>

lemma reachable_applyMoves: "reachable s \<Longrightarrow> reachable (applyMoves idxs s)"
  by (induction idxs arbitrary: s) (simp_all add: reachable_applyMove)

lemma squares_applyMove:
  "squares (applyMove idx s) =
     (if truthy (js_get (squares s) idx) \<or> gameOver s then squares s
      else js_set (squares s) idx (Str (if isXNext s then ''X'' else ''O'')))"
  by (simp add: applyMove_def handleSquareClick_def Let_def)

lemma isXNext_applyMove:
  "isXNext (applyMove idx s) =
     (if truthy (js_get (squares s) idx) \<or> gameOver s then isXNext s else \<not> isXNext s)"
  by (simp add: applyMove_def handleSquareClick_def Let_def)

lemma cell_kept_applyMove:
  assumes "truthy (js_get (squares s) i)"
  shows "js_get (squares (applyMove idx s)) i = js_get (squares s) i"
proof (cases "truthy (js_get (squares s) idx) \<or> gameOver s")
  case True
  then show ?thesis by (simp add: squares_applyMove)
next
  case False
  with assms have "i \<noteq> idx" by auto
  with False show ?thesis by (simp add: squares_applyMove js_get_js_set)
qed

lemma cell_kept_applyMoves:
  "truthy (js_get (squares s) i) \<Longrightarrow> js_get (squares (applyMoves idxs s)) i = js_get (squares s) i"
proof (induction idxs arbitrary: s)
  case Nil
  show ?case by simp
next
  case (Cons idx idxs)
  from Cons.prems have eq: "js_get (squares (applyMove idx s)) i = js_get (squares s) i"
    by (rule cell_kept_applyMove)
  with Cons.prems have "truthy (js_get (squares (applyMove idx s)) i)"
    by simp
  then have "js_get (squares (applyMoves idxs (applyMove idx s))) i = js_get (squares (applyMove idx s)) i"
    by (rule Cons.IH)
  with eq show ?case by simp
qed

lemma reset_cell_empty: "\<not> truthy (js_get (squares (reset s)) i)"
proof -
  have "js_get (Array_fill 9 Null) i = Null \<or> js_get (Array_fill 9 Null) i = Undefined"
    by (simp add: js_get_def Array_fill_def)
  then show ?thesis
    by (auto simp: reset_eq_initial initial_def)
qed

text \<open>
  C5. In every reachable state, a cell that holds a mark reads the same after any click
  and after any sequence of clicks; only a reset empties it again (after a reset no cell
  holds a mark). Reachable states are those obtained from the first render by clicks at
  arbitrary indices and by restarts.
\<close>

theorem marked_cell_keeps_mark:
  assumes "reachable s" and "truthy (js_get (squares s) i)"
  shows "js_get (squares (applyMove idx s)) i = js_get (squares s) i
         \<and> js_get (squares (applyMoves idxs s)) i = js_get (squares s) i
         \<and> \<not> truthy (js_get (squares (reset s)) i)"
  using assms(2) by (simp add: cell_kept_applyMove cell_kept_applyMoves reset_cell_empty)

theorem marked_cell_keeps_mark_witness:
  "reachable (applyMove 4 initial)
   \<and> js_get (squares (applyMove 4 initial)) 4 = Str ''X''
   \<and> js_get (squares (applyMove 4 (applyMove 4 initial))) 4 = Str ''X''
   \<and> js_get (squares (applyMoves [0, 4, 8, 4] (applyMove 4 initial))) 4 = Str ''X''
   \<and> \<not> truthy (js_get (squares (reset (applyMove 4 initial))) 4)"
proof -
  have r: "reachable (applyMove 4 initial)"
    by (intro reachable.intros)
  have c: "js_get (squares (applyMove 4 initial)) 4 = Str ''X''"
    by (simp add: run_defs)
  then have t: "truthy (js_get (squares (applyMove 4 initial)) 4)"
    by simp
  from marked_cell_keeps_mark [OF r t, of 4 "[0, 4, 8, 4]"] r c show ?thesis
    by simp
qed

section \<open>The balance of the two marks\<close>

lemma count_list_update:
  "i < length xs \<Longrightarrow> xs ! i \<noteq> w \<Longrightarrow>
     count_list (xs[i := y]) w = count_list xs w + (if y = w then 1 else 0)"
proof (induction xs arbitrary: i)
  case Nil
  then show ?case by simp
next
  case (Cons x xs)
  then show ?case by (cases i) auto
qed

lemma count_list_replicate_other: "x \<noteq> w \<Longrightarrow> count_list (replicate n x) w = 0"
  by (induction n) simp_all

lemma count_mark_js_set:
  assumes "\<not> truthy (js_get xs i)" and "m \<noteq> []"
  shows "count_mark m (js_set xs i v) = count_mark m xs + (if v = Str m then 1 else 0)"
proof (cases "i < length xs")
  case True
  with assms have "xs ! i \<noteq> Some (Str m)"
    by (auto simp: js_get_def)
  with True show ?thesis
    by (simp add: count_mark_def js_set_def count_list_update)
next
  case False
  then show ?thesis
    by (simp add: count_mark_def js_set_def count_list_replicate_other)
qed

lemma count_mark_initial: "count_mark m (Array_fill 9 Null) = 0"
  by (simp add: count_mark_def Array_fill_def count_list_replicate_other)

lemma reachable_counts:
  "reachable s \<Longrightarrow>
     count_mark ''X'' (squares s) = count_mark ''O'' (squares s) + (if isXNext s then 0 else 1)"
proof (induction rule: reachable.induct)
  case reachable_initial
  show ?case by (simp add: initial_def count_mark_initial)
next
  case (reachable_applyMove s idx)
  show ?case
  proof (cases "truthy (js_get (squares s) idx) \<or> gameOver s")
    case True
    with reachable_applyMove.IH show ?thesis
      by (simp add: squares_applyMove isXNext_applyMove)
  next
    case False
    then have e: "\<not> truthy (js_get (squares s) idx)" by simp
    from False reachable_applyMove.IH show ?thesis
      by (simp add: squares_applyMove isXNext_applyMove count_mark_js_set [OF e])
  qed
next
  case (reachable_reset s)
  show ?case by (simp add: reset_eq_initial initial_def count_mark_initial)
qed

text \<open>
  C10. In every reachable state the board holds as many X as O when X is next, and one X
  more than O when O is next. So the number of X is never below the number of O and
  never exceeds it by more than one.
\<close>

theorem mark_counts_balanced:
  assumes "reachable s"
  shows "(isXNext s \<longrightarrow> count_mark ''X'' (squares s) = count_mark ''O'' (squares s))
         \<and> (\<not> isXNext s \<longrightarrow> count_mark ''X'' (squares s) = count_mark ''O'' (squares s) + 1)
         \<and> count_mark ''O'' (squares s) \<le> count_mark ''X'' (squares s)
         \<and> count_mark ''X'' (squares s) \<le> count_mark ''O'' (squares s) + 1"
  using reachable_counts [OF assms] by simp

theorem mark_counts_balanced_witness:
  "reachable (applyMoves [0, 4, 1] initial)
   \<and> \<not> isXNext (applyMoves [0, 4, 1] initial)
   \<and> count_mark ''X'' (squares (applyMoves [0, 4, 1] initial)) = 2
   \<and> count_mark ''O'' (squares (applyMoves [0, 4, 1] initial)) = 1"
proof -
  define s where "s = applyMoves [0, 4, 1] initial"
  have r: "reachable s"
    unfolding s_def by (intro reachable_applyMoves reachable_initial)
  have sq: "squares s = [Some (Str ''X''), Some (Str ''X''), Some Null, Some Null,
      Some (Str ''O''), Some Null, Some Null, Some Null, Some Null]"
    and nx: "\<not> isXNext s"
    unfolding s_def by (simp_all add: run_defs)
  have o: "count_mark ''O'' (squares s) = 1"
    by (simp add: sq count_mark_def)
  from mark_counts_balanced [OF r] nx o have "count_mark ''X'' (squares s) = 2"
    by simp
  with r nx o show ?thesis
    unfolding s_def by simp
qed

section \<open>Nine accepted moves fill the board\<close>

lemma filled_iff: "filled slot \<longleftrightarrow> (\<exists>v. slot = Some v \<and> truthy v)"
  by (cases slot) (simp_all add: filled_def)

lemma length_filter_update:
  "i < length xs \<Longrightarrow> \<not> P (xs ! i) \<Longrightarrow> P y \<Longrightarrow>
     length (filter P (xs[i := y])) = Suc (length (filter P xs))"
proof (induction xs arbitrary: i)
  case Nil
  then show ?case by simp
next
  case (Cons x xs)
  then show ?case by (cases i) auto
qed

lemma length_filter_all: "length (filter P xs) = length xs \<Longrightarrow> list_all P xs"
proof (induction xs)
  case Nil
  show ?case by simp
next
  case (Cons x xs)
  have le: "length (filter P xs) \<le> length xs"
    by (rule length_filter_le)
  show ?case
  proof (cases "P x")
    case True
    with Cons show ?thesis by simp
  next
    case False
    with Cons.prems le show ?thesis by simp
  qed
qed

lemma is_board_initial: "is_board (squares initial)"
  by (simp add: is_board_def initial_def Array_fill_def list_all_iff)

lemma count_filled_initial: "count_filled (squares initial) = 0"
  by (simp add: count_filled_def initial_def Array_fill_def filled_def)

lemma is_board_update: "is_board board \<Longrightarrow> is_board (board[i := Some v])"
  by (auto simp: is_board_def list_all_iff dest: set_update_subset_insert [THEN subsetD])

lemma accepted_step:
  assumes b: "is_board (squares s)" and i: "idx < 9" and a: "handleSquareClick idx s \<noteq> Ignored"
  shows "is_board (squares (applyMove idx s))
         \<and> count_filled (squares (applyMove idx s)) = Suc (count_filled (squares s))"
proof -
  let ?m = "Str (if isXNext s then ''X'' else ''O'')"
  from a have g: "\<not> truthy (js_get (squares s) idx)" "\<not> gameOver s"
    by (simp_all add: handleSquareClick_Ignored)
  from b i have len: "idx < length (squares s)"
    by (simp add: is_board_def)
  from g len have sq: "squares (applyMove idx s) = (squares s)[idx := Some ?m]"
    by (simp add: squares_applyMove js_set_in_range)
  from g(1) len have "\<not> filled (squares s ! idx)"
    by (auto simp: filled_iff js_get_def)
  moreover have "filled (Some ?m)"
    by (simp add: filled_def)
  ultimately have "count_filled (squares (applyMove idx s)) = Suc (count_filled (squares s))"
    using len unfolding sq count_filled_def by (rule length_filter_update [rotated])
  with b show ?thesis
    by (simp add: sq is_board_update)
qed

lemma accepted_run:
  "is_board (squares s) \<Longrightarrow> \<forall>idx \<in> set idxs. idx < 9 \<Longrightarrow> moves_accepted idxs s \<Longrightarrow>
     is_board (squares (applyMoves idxs s))
     \<and> count_filled (squares (applyMoves idxs s)) = count_filled (squares s) + length idxs"
proof (induction idxs arbitrary: s)
  case Nil
  then show ?case by simp
next
  case (Cons idx idxs)
  from Cons.prems have "idx < 9" and "handleSquareClick idx s \<noteq> Ignored"
    by simp_all
  with Cons.prems(1) have step: "is_board (squares (applyMove idx s))"
    "count_filled (squares (applyMove idx s)) = Suc (count_filled (squares s))"
    by (simp_all add: accepted_step)
  from Cons.prems have "\<forall>idx \<in> set idxs. idx < 9" and "moves_accepted idxs (applyMove idx s)"
    by simp_all
  with step(1) have "is_board (squares (applyMoves idxs (applyMove idx s)))
     \<and> count_filled (squares (applyMoves idxs (applyMove idx s)))
         = count_filled (squares (applyMove idx s)) + length idxs"
    by (rule Cons.IH)
  with step(2) show ?case by simp
qed

lemma all_cells_filled_iff: "all_cells_filled board \<longleftrightarrow> (\<forall>i < 9. truthy (js_get board i))"
  by (auto simp: all_cells_filled_def list_all_iff)

lemma every_Boolean_is_board:
  assumes "is_board board"
  shows "every_Boolean board = all_cells_filled board"
proof -
  from assms have len: "length board = 9" and dense: "\<forall>n < 9. board ! n \<noteq> None"
    by (simp_all add: is_board_def list_all_length)
  have "(case board ! n of None \<Rightarrow> True | Some v \<Rightarrow> truthy v) = truthy (js_get board n)"
    if "n < 9" for n
    using that len dense by (auto simp: js_get_def split: option.splits)
  then show ?thesis
    by (simp add: every_Boolean_def list_all_length len all_cells_filled_iff)
qed

lemma every_Boolean_filled: "list_all filled board \<Longrightarrow> every_Boolean board"
  by (auto simp: every_Boolean_def list_all_iff filled_iff)

lemma applyMoves_append: "applyMoves (xs @ ys) s = applyMoves ys (applyMoves xs s)"
  by (induction xs arbitrary: s) simp_all

lemma gameOver_applyMove_accepted:
  "handleSquareClick idx s \<noteq> Ignored \<Longrightarrow>
     gameOver (applyMove idx s) = (winResult (applyMove idx s) \<noteq> None \<or> isBoardFull (applyMove idx s))"
  by (simp add: handleSquareClick_Ignored applyMove_accepted gameOver_gameOverEffect)

text \<open>
  C7. Nine accepted clicks on cells of the board (indices 0 to 8, the cells the board
  renders), starting from the initial state, fill the board. If the final board completes
  none of the eight lines, the status is the draw and the game is over.
\<close>

theorem nine_moves_without_line_draw:
  assumes "length idxs = 9" and "\<forall>idx \<in> set idxs. idx < 9" and "moves_accepted idxs initial"
    and "calculateWinner (squares (applyMoves idxs initial)) = None"
  shows "isBoardFull (applyMoves idxs initial)
         \<and> status (applyMoves idxs initial) = ''Draw!''
         \<and> gameOver (applyMoves idxs initial)
         \<and> spec_GameResult (squares (applyMoves idxs initial)) = Draw"
proof -
  let ?s = "applyMoves idxs initial"
  from accepted_run [OF is_board_initial assms(2,3)] assms(1)
  have b: "is_board (squares ?s)" and n: "count_filled (squares ?s) = 9"
    by (simp_all add: count_filled_initial)
  then have "length (filter filled (squares ?s)) = length (squares ?s)"
    by (simp add: count_filled_def is_board_def)
  then have "list_all filled (squares ?s)"
    by (rule length_filter_all)
  then have full: "isBoardFull ?s"
    by (simp add: isBoardFull_def every_Boolean_filled)
  have r: "reachable ?s"
    by (intro reachable_applyMoves reachable_initial)
  from full have "gameOver ?s"
    by (simp add: reachable_gameOver [OF r])
  moreover from full assms(4) have "status ?s = ''Draw!''"
    by (simp add: status_def winResult_def)
  moreover from full assms(4) have "spec_GameResult (squares ?s) = Draw"
    by (simp add: spec_GameResult_def isBoardFull_def every_Boolean_is_board [OF b])
  ultimately show ?thesis
    using full by simp
qed

theorem nine_moves_without_line_draw_witness:
  "length [0, 1, 2, 4, 3, 5, 7, 6, 8 :: nat] = 9
   \<and> list_all (\<lambda>idx. idx < 9) [0, 1, 2, 4, 3, 5, 7, 6, 8 :: nat]
   \<and> moves_accepted [0, 1, 2, 4, 3, 5, 7, 6, 8] initial
   \<and> calculateWinner (squares (applyMoves [0, 1, 2, 4, 3, 5, 7, 6, 8] initial)) = None
   \<and> status (applyMoves [0, 1, 2, 4, 3, 5, 7, 6, 8] initial) = ''Draw!''
   \<and> gameOver (applyMoves [0, 1, 2, 4, 3, 5, 7, 6, 8] initial)
   \<and> spec_GameResult (squares (applyMoves [0, 1, 2, 4, 3, 5, 7, 6, 8] initial)) = Draw"
proof -
  have h1: "length [0, 1, 2, 4, 3, 5, 7, 6, 8 :: nat] = 9"
    by simp
  have h2: "\<forall>idx \<in> set [0, 1, 2, 4, 3, 5, 7, 6, 8 :: nat]. idx < 9"
    by simp
  have h3: "moves_accepted [0, 1, 2, 4, 3, 5, 7, 6, 8] initial"
    by (simp add: run_defs)
  have h4: "calculateWinner (squares (applyMoves [0, 1, 2, 4, 3, 5, 7, 6, 8] initial)) = None"
    by (simp add: run_defs scan_lines.simps)
  have h2': "list_all (\<lambda>idx. idx < 9) [0, 1, 2, 4, 3, 5, 7, 6, 8 :: nat]"
    by simp
  from nine_moves_without_line_draw [OF h1 h2 h3 h4] h1 h2' h3 h4 show ?thesis
    by blast
qed

text \<open>
  The bound on the indices is what makes a click a move on the board. The board renders
  one button for each of the nine elements, so the handler only ever receives the indices
  0 to 8; called with an index past the end, the assignment would extend the array
  instead of filling a cell.
\<close>

lemma click_past_the_board_extends:
  "length (squares (applyMove 9 initial)) = 10
   \<and> js_get (squares (applyMove 9 initial)) 9 = Str ''X''
   \<and> js_get (squares (applyMove 9 initial)) 8 = Null"
  by (simp add: run_defs)

section \<open>The game result is derived from the board\<close>

lemma status_cases:
  "status s =
     (case calculateWinner (squares s) of
        Some r \<Rightarrow> ''Winner: '' @ toString (winner r)
      | None \<Rightarrow> if every_Boolean (squares s) then ''Draw!''
                else ''Next turn: '' @ (if isXNext s then ''X'' else ''O''))"
  by (simp add: status_def winResult_def isBoardFull_def)

text \<open>
  C4. On a 9-cell board the game-over flag stored by the effect is true exactly when the
  evaluator finds a winner or all nine cells are filled, and so is the flag of every
  reachable state. The status and the winning line shown are those of the derived result:
  a win with the evaluator's player and line whenever the evaluator finds one (also on a
  full board), the draw when the board is full with no winner, the next turn otherwise.
\<close>

theorem game_result_derived:
  assumes "is_board (squares s)"
  shows "gameOver (gameOverEffect s) = spec_gameOver (squares s)
         \<and> (reachable s \<longrightarrow> gameOver s = spec_gameOver (squares s))
         \<and> (spec_gameOver (squares s) \<longleftrightarrow> spec_GameResult (squares s) \<noteq> InProgress)
         \<and> (\<forall>p l. spec_GameResult (squares s) = Win p l \<longleftrightarrow> winResult s = Some \<lparr>winner = p, line = l\<rparr>)
         \<and> (\<forall>p l. spec_GameResult (squares s) = Win p l \<longrightarrow>
               status s = ''Winner: '' @ toString p \<and> winningLine s = Some l)
         \<and> (spec_GameResult (squares s) = Draw \<longleftrightarrow> winResult s = None \<and> isBoardFull s)
         \<and> (spec_GameResult (squares s) = Draw \<longleftrightarrow> status s = ''Draw!'')
         \<and> (spec_GameResult (squares s) = InProgress \<longleftrightarrow> winResult s = None \<and> \<not> isBoardFull s)
         \<and> (spec_GameResult (squares s) = InProgress \<longleftrightarrow>
               status s = ''Next turn: '' @ (if isXNext s then ''X'' else ''O''))"
proof -
  note full = every_Boolean_is_board [OF assms]
  have c1: "gameOver (gameOverEffect s) = spec_gameOver (squares s)"
    by (simp add: gameOver_gameOverEffect spec_gameOver_def winResult_def isBoardFull_def full)
  have c2: "reachable s \<longrightarrow> gameOver s = spec_gameOver (squares s)"
    by (simp add: reachable_gameOver spec_gameOver_def winResult_def isBoardFull_def full)
  have c3: "spec_gameOver (squares s) \<longleftrightarrow> spec_GameResult (squares s) \<noteq> InProgress"
    by (simp add: spec_gameOver_def spec_GameResult_def split: option.splits)
  have c4: "spec_GameResult (squares s) = Win p l \<longleftrightarrow> winResult s = Some \<lparr>winner = p, line = l\<rparr>"
    for p l
    by (cases "calculateWinner (squares s)") (auto simp: spec_GameResult_def winResult_def)
  have c5: "spec_GameResult (squares s) = Win p l \<longrightarrow>
               status s = ''Winner: '' @ toString p \<and> winningLine s = Some l" for p l
    by (simp add: c4 status_def winningLine_def)
  have c6: "spec_GameResult (squares s) = Draw \<longleftrightarrow> winResult s = None \<and> isBoardFull s"
    by (simp add: spec_GameResult_def winResult_def isBoardFull_def full split: option.splits)
  have c7: "spec_GameResult (squares s) = Draw \<longleftrightarrow> status s = ''Draw!''"
    by (simp add: spec_GameResult_def status_cases full split: option.splits)
  have c8: "spec_GameResult (squares s) = InProgress \<longleftrightarrow> winResult s = None \<and> \<not> isBoardFull s"
    by (simp add: spec_GameResult_def winResult_def isBoardFull_def full split: option.splits)
  have c9: "spec_GameResult (squares s) = InProgress \<longleftrightarrow>
               status s = ''Next turn: '' @ (if isXNext s then ''X'' else ''O'')"
    by (simp add: spec_GameResult_def status_cases full split: option.splits)
  from c1 c2 c3 c4 c5 c6 c7 c8 c9 show ?thesis
    by blast
qed

theorem game_result_derived_witness:
  "is_board [Some (Str ''X''), Some (Str ''O''), Some (Str ''X''),
             Some (Str ''O''), Some (Str ''X''), Some (Str ''O''),
             Some (Str ''X''), Some (Str ''O''), Some (Str ''X'')]
   \<and> every_Boolean [Some (Str ''X''), Some (Str ''O''), Some (Str ''X''),
             Some (Str ''O''), Some (Str ''X''), Some (Str ''O''),
             Some (Str ''X''), Some (Str ''O''), Some (Str ''X'')]
   \<and> spec_GameResult [Some (Str ''X''), Some (Str ''O''), Some (Str ''X''),
             Some (Str ''O''), Some (Str ''X''), Some (Str ''O''),
             Some (Str ''X''), Some (Str ''O''), Some (Str ''X'')] = Win (Str ''X'') [0, 4, 8]
   \<and> status \<lparr>squares = [Some (Str ''X''), Some (Str ''O''), Some (Str ''X''),
             Some (Str ''O''), Some (Str ''X''), Some (Str ''O''),
             Some (Str ''X''), Some (Str ''O''), Some (Str ''X'')],
        isXNext = False, gameOver = True, history = []\<rparr> = ''Winner: X''
   \<and> winningLine \<lparr>squares = [Some (Str ''X''), Some (Str ''O''), Some (Str ''X''),
             Some (Str ''O''), Some (Str ''X''), Some (Str ''O''),
             Some (Str ''X''), Some (Str ''O''), Some (Str ''X'')],
        isXNext = False, gameOver = True, history = []\<rparr> = Some [0, 4, 8]"
proof -
  let ?b = "[Some (Str ''X''), Some (Str ''O''), Some (Str ''X''),
             Some (Str ''O''), Some (Str ''X''), Some (Str ''O''),
             Some (Str ''X''), Some (Str ''O''), Some (Str ''X'')]"
  let ?s = "\<lparr>squares = ?b, isXNext = False, gameOver = True, history = []\<rparr>"
  have b: "is_board (squares ?s)"
    by (simp add: is_board_def)
  have e: "every_Boolean ?b"
    by (simp add: every_Boolean_def)
  have w: "spec_GameResult (squares ?s) = Win (Str ''X'') [0, 4, 8]"
    by (simp add: spec_GameResult_def calculateWinner_def lines_def line_matches_def js_get_def)
  from game_result_derived [OF b] w
  have "status ?s = ''Winner: '' @ toString (Str ''X'') \<and> winningLine ?s = Some [0, 4, 8]"
    by blast
  with b e w show ?thesis
    by simp
qed

end
